theory Spec2Isabelle
  imports Main
begin

section \<open>Values, requests and responses\<close>

text \<open>
  The module \<^verbatim>\<open>src/index.js\<close> exports one function, \<^verbatim>\<open>archive\<close>. It talks to three
  collaborators that are not part of the repository: the S3 client (\<^verbatim>\<open>upload\<close>,
  \<^verbatim>\<open>listObjectsV2\<close>, \<^verbatim>\<open>getObject\<close>), the archiver and the console. The embedding
  takes the collaborators as parameters (the record \<open>env\<close>), writes every call the function
  makes into a log of events, in program order, and turns every \<^verbatim>\<open>throw\<close> and every
  rejected promise the function waits for into a value. What a collaborator does after a
  call has returned is a parameter too: the completion of the upload and the fate of a
  read stream.

  Strings are \<open>string\<close>. The only string operations of the source that look inside a string
  are \<^verbatim>\<open>toLowerCase\<close> (compared with \<^verbatim>\<open>'zip'\<close> and \<^verbatim>\<open>'tar'\<close>) and the search for
  \<^verbatim>\<open>"/"\<close>; both concern ASCII characters only.
\<close>

datatype error = TypeError | ExternalError string

text \<open>
  The JavaScript values an argument or an option can hold. \<open>JPassThrough\<close> is the
  \<^verbatim>\<open>PassThrough\<close> stream created at line 50 (\<^verbatim>\<open>outputStream\<close>).
\<close>

datatype js_value =
    JUndefined
  | JNull
  | JBool bool
  | JNumber int
  | JStr string
  | JPassThrough

text \<open>An object literal: its properties in insertion order.\<close>

type_synonym js_object = "(string \<times> js_value) list"

record list_props =
  lp_Bucket :: string
  lp_ContinuationToken :: js_value
  lp_Prefix :: "string option"

record s3_content =
  Key :: string

record s3_page =
  Contents :: "s3_content list"
  NextContinuationToken :: js_value
  IsTruncated :: bool

record upload_data =
  ud_Bucket :: string
  ud_Key :: string

record archive_result =
  s3Bucket :: string
  fileKey :: string
  fileSize :: nat

datatype log_line =
    FoundFiles nat string
  | FoundTotalFiles nat string
  | WorkingWith "string list"

text \<open>
  The stream \<^verbatim>\<open>s3.getObject(...).createReadStream()\<close> returns: the key it reads and how
  its reading will end, with an error or without one. Reading happens on later turns of the
  event loop, after the call has returned; \<^verbatim>\<open>archive\<close> never looks into the stream and
  attaches no listener to it, it only hands it to the archiver.
\<close>

datatype read_stream = ReadStream string "error option"

fun read_error :: "read_stream \<Rightarrow> error option" where
  "read_error (ReadStream k e) = e"

text \<open>
  The calls \<^verbatim>\<open>archive\<close> makes. \<open>Append s n\<close> is
  \<^verbatim>\<open>streamArchiver.append(fileReadStream, { name: n })\<close> with the read stream \<open>s\<close>.
\<close>

datatype event =
    NewArchiver string
  | S3Upload js_object
  | Pipe
  | ListObjectsV2 list_props
  | ConsoleLog log_line
  | GetObject string string
  | Append read_stream string
  | Finalize

text \<open>
  When the S3 client calls the callback given to \<^verbatim>\<open>s3.upload\<close> (lines 59 to 69), with
  what, and what \<^verbatim>\<open>streamArchiver.pointer()\<close> returns at that moment. The callback runs
  on a later turn of the event loop: while the function waits for a page of the listing,
  or after the function's body has ended.
\<close>

datatype upload_completion =
    NoCallback
  | CallbackWhileListing "error + upload_data" nat
  | CallbackAfterBody "error + upload_data" nat

text \<open>
  The collaborators. A call that throws returns \<open>Some e\<close> (or \<open>Inl e\<close>). The number given
  to \<open>s3_listObjectsV2\<close> is the number of listing calls made before, the number given to
  \<open>s3_getObject\<close> and \<open>archiver_append\<close> the number of entries processed before.
\<close>

record env =
  archiver_new :: "string \<Rightarrow> error option"
  s3_upload :: "js_object \<Rightarrow> error option"
  archiver_pipe :: "error option"
  s3_listObjectsV2 :: "nat \<Rightarrow> list_props \<Rightarrow> error + s3_page"
  s3_getObject :: "nat \<Rightarrow> string \<Rightarrow> string \<Rightarrow> error + read_stream"
  archiver_append :: "nat \<Rightarrow> read_stream \<Rightarrow> string \<Rightarrow> error option"
  archiver_finalize :: "error option"
  upload_callback :: upload_completion

text \<open>
  The arguments of \<^verbatim>\<open>archive\<close>. \<open>sourcePathPrefix = None\<close> is a missing or null prefix,
  \<open>outputFilename = None\<close> an omitted file name, \<open>sourceFiles = []\<close> also the omitted list,
  \<open>uploadOptions = []\<close> also the omitted options, and \<open>s3FileNameTransform\<close> is
  \<^verbatim>\<open>archiverOptions.s3FileNameTransform\<close>, a callback that may throw.
\<close>

record archive_args =
  sourceBucket :: string
  sourcePathPrefix :: "string option"
  sourceFiles :: "string list"
  outputFilename :: "string option"
  outputFormat :: js_value
  uploadOptions :: js_object
  s3FileNameTransform :: "(string \<Rightarrow> error + string) option"

section \<open>Runs: a log of events and how the run ended\<close>

datatype 'a res = Done 'a | Throw error | Diverge

type_synonym 'a run = "event list \<times> 'a res"

definition bind_run :: "'a run \<Rightarrow> ('a \<Rightarrow> 'b run) \<Rightarrow> 'b run" where
  "bind_run m f =
     (case m of
        (es, Done x) \<Rightarrow> (case f x of (es', r) \<Rightarrow> (es @ es', r))
      | (es, Throw e) \<Rightarrow> (es, Throw e)
      | (es, Diverge) \<Rightarrow> (es, Diverge))"

definition call :: "event \<Rightarrow> error option \<Rightarrow> unit run" where
  "call ev r = ([ev], case r of None \<Rightarrow> Done () | Some e \<Rightarrow> Throw e)"

definition call_returning :: "event \<Rightarrow> error + 'a \<Rightarrow> 'a run" where
  "call_returning ev r = ([ev], case r of Inl e \<Rightarrow> Throw e | Inr x \<Rightarrow> Done x)"

definition lift :: "error + 'a \<Rightarrow> 'a run" where
  "lift r = ([], case r of Inl e \<Rightarrow> Throw e | Inr x \<Rightarrow> Done x)"

section \<open>The function \<^verbatim>\<open>archive\<close>\<close>

subsection \<open>Lines 34 to 57: parameters, format, output key, upload parameters\<close>

definition default_param :: "js_value \<Rightarrow> js_value \<Rightarrow> js_value" where
  "default_param d v = (if v = JUndefined then d else v)"

definition sourcePath :: "archive_args \<Rightarrow> string" where
  "sourcePath a = (case sourcePathPrefix a of None \<Rightarrow> [] | Some p \<Rightarrow> p)"

definition outputName :: "archive_args \<Rightarrow> string" where
  "outputName a = (case outputFilename a of None \<Rightarrow> ''archive'' | Some n \<Rightarrow> n)"

definition lower_char :: "char \<Rightarrow> char" where
  "lower_char c =
     (case map_of (zip ''ABCDEFGHIJKLMNOPQRSTUVWXYZ'' ''abcdefghijklmnopqrstuvwxyz'') c of
        Some l \<Rightarrow> l
      | None \<Rightarrow> c)"

text \<open>
  \<^verbatim>\<open>toLowerCase\<close> on the letters A to Z; every other character is left as it is, and none
  of them becomes a letter of \<^verbatim>\<open>zip\<close> or \<^verbatim>\<open>tar\<close>.
\<close>

definition toLowerCase :: "string \<Rightarrow> string" where
  "toLowerCase s = map lower_char s"

text \<open>
  Line 46. A value without a \<^verbatim>\<open>toLowerCase\<close> method makes the call throw a TypeError.
\<close>

definition select_format :: "js_value \<Rightarrow> error + string" where
  "select_format v =
     (case v of
        JStr s \<Rightarrow> Inr (if toLowerCase s \<in> set [''zip'', ''tar''] then s else ''zip'')
      | _ \<Rightarrow> Inl TypeError)"

definition outputFilePath :: "archive_args \<Rightarrow> string \<Rightarrow> string" where
  "outputFilePath a format = sourcePath a @ outputName a @ ''.'' @ format"

fun set_property :: "string \<Rightarrow> js_value \<Rightarrow> js_object \<Rightarrow> js_object" where
  "set_property k v [] = [(k, v)]"
| "set_property k v (p # ps) = (if fst p = k then (k, v) # ps else p # set_property k v ps)"

definition spread :: "js_object \<Rightarrow> js_object \<Rightarrow> js_object" where
  "spread obj src = fold (\<lambda>(k, v). set_property k v) src obj"

definition get_property :: "js_object \<Rightarrow> string \<Rightarrow> js_value" where
  "get_property obj k = (case map_of obj k of None \<Rightarrow> JUndefined | Some v \<Rightarrow> v)"

definition upload_params :: "archive_args \<Rightarrow> string \<Rightarrow> js_object" where
  "upload_params a format =
     spread [(''Bucket'', JStr (sourceBucket a)),
             (''Key'', JStr (outputFilePath a format)),
             (''Body'', JPassThrough)]
            (uploadOptions a)"

subsection \<open>Lines 73 to 93: the entries\<close>

definition list_request :: "string \<Rightarrow> string \<Rightarrow> js_value \<Rightarrow> list_props" where
  "list_request bucket sp token =
     \<lparr>lp_Bucket = bucket, lp_ContinuationToken = token,
      lp_Prefix = (if sp \<noteq> [] then Some sp else None)\<rparr>"

definition page_keys :: "string \<Rightarrow> s3_page \<Rightarrow> string list" where
  "page_keys sp page = filter (\<lambda>k. k \<noteq> sp) (map Key (Contents page))"

text \<open>
  The \<^verbatim>\<open>while (true)\<close> loop of lines 77 to 90, with fuel: one unit for each turn. \<open>n\<close> is
  the number of listing calls made so far, \<open>token\<close> the value of \<^verbatim>\<open>continuationToken\<close>,
  \<open>files\<close> the value of \<^verbatim>\<open>sourceFiles\<close>. Out of fuel the run is \<open>Diverge\<close>, with the
  events so far.
\<close>

fun list_loop :: "nat \<Rightarrow> env \<Rightarrow> string \<Rightarrow> string \<Rightarrow> nat \<Rightarrow> js_value \<Rightarrow> string list
    \<Rightarrow> string list run" where
  "list_loop 0 ev bucket sp n token files = ([], Diverge)"
| "list_loop (Suc fuel) ev bucket sp n token files =
     (let props = list_request bucket sp token in
      case s3_listObjectsV2 ev n props of
        Inl e \<Rightarrow> ([ListObjectsV2 props], Throw e)
      | Inr page \<Rightarrow>
          (let files' = files @ page_keys sp page;
               es = [ListObjectsV2 props, ConsoleLog (FoundFiles (length files') sp)]
           in if \<not> IsTruncated page then (es, Done files')
              else bind_run (es, Done ())
                     (\<lambda>_. list_loop fuel ev bucket sp (Suc n) (NextContinuationToken page) files')))"

definition resolve_entries :: "nat \<Rightarrow> env \<Rightarrow> archive_args \<Rightarrow> string list run" where
  "resolve_entries fuel ev a =
     (if sourceFiles a \<noteq> [] then ([], Done (map (\<lambda>file. sourcePath a @ file) (sourceFiles a)))
      else bind_run (list_loop fuel ev (sourceBucket a) (sourcePath a) 0 JNull (sourceFiles a))
             (\<lambda>files. ([ConsoleLog (FoundTotalFiles (length files) (sourcePath a))], Done files)))"

subsection \<open>Lines 97 to 104: the entry names and the appends\<close>

fun lastIndexOf_from :: "string \<Rightarrow> char \<Rightarrow> int \<Rightarrow> int \<Rightarrow> int" where
  "lastIndexOf_from [] c i found = found"
| "lastIndexOf_from (x # xs) c i found = lastIndexOf_from xs c (i + 1) (if x = c then i else found)"

definition lastIndexOf :: "string \<Rightarrow> char \<Rightarrow> int" where
  "lastIndexOf s c = lastIndexOf_from s c 0 (- 1)"

definition substring :: "string \<Rightarrow> int \<Rightarrow> string" where
  "substring s start = drop (nat (min (max start 0) (int (length s)))) s"

definition entry_name :: "archive_args \<Rightarrow> string \<Rightarrow> error + string" where
  "entry_name a s3File =
     (case s3FileNameTransform a of
        Some transform \<Rightarrow> transform s3File
      | None \<Rightarrow> Inr (substring s3File (lastIndexOf s3File (CHR ''/'') + 1)))"

definition process_entry :: "env \<Rightarrow> archive_args \<Rightarrow> nat \<Rightarrow> string \<Rightarrow> unit run" where
  "process_entry ev a i s3File =
     bind_run (call_returning (GetObject (sourceBucket a) s3File)
                 (s3_getObject ev i (sourceBucket a) s3File))
       (\<lambda>fileReadStream. bind_run (lift (entry_name a s3File))
          (\<lambda>s3FileName. call (Append fileReadStream s3FileName)
                           (archiver_append ev i fileReadStream s3FileName)))"

fun append_files :: "env \<Rightarrow> archive_args \<Rightarrow> nat \<Rightarrow> string list \<Rightarrow> unit run" where
  "append_files ev a i [] = ([], Done ())"
| "append_files ev a i (s3File # rest) =
     bind_run (process_entry ev a i s3File) (\<lambda>_. append_files ev a (Suc i) rest)"

subsection \<open>Lines 44 to 109: the body of the promise's executor\<close>

text \<open>Lines 73 to 106: resolve the entries, log them, append each, finalize.\<close>

definition stream_entries :: "nat \<Rightarrow> env \<Rightarrow> archive_args \<Rightarrow> unit run" where
  "stream_entries fuel ev a =
     bind_run (resolve_entries fuel ev a) (\<lambda>files.
     bind_run (call (ConsoleLog (WorkingWith files)) None) (\<lambda>_.
     bind_run (append_files ev a 0 files) (\<lambda>_.
     call Finalize (archiver_finalize ev))))"

text \<open>
  Lines 45 to 71, then the rest. The \<^verbatim>\<open>try\<close> block ends at the first call that throws.
\<close>

definition archive_body :: "nat \<Rightarrow> env \<Rightarrow> archive_args \<Rightarrow> unit run" where
  "archive_body fuel ev a =
     bind_run (lift (select_format (default_param (JStr ''zip'') (outputFormat a)))) (\<lambda>format.
     bind_run (call (NewArchiver format) (archiver_new ev format)) (\<lambda>_.
     bind_run (call (S3Upload (upload_params a format)) (s3_upload ev (upload_params a format))) (\<lambda>_.
     bind_run (call Pipe (archiver_pipe ev)) (\<lambda>_.
     stream_entries fuel ev a))))"

subsection \<open>The promise\<close>

datatype outcome = Resolved archive_result | Rejected error | Pending

text \<open>The callback of lines 59 to 69.\<close>

definition upload_callback_fn :: "error + upload_data \<Rightarrow> nat \<Rightarrow> outcome" where
  "upload_callback_fn r pointer =
     (case r of
        Inl e \<Rightarrow> Rejected e
      | Inr d \<Rightarrow> Resolved \<lparr>s3Bucket = ud_Bucket d, fileKey = ud_Key d, fileSize = pointer\<rparr>)"

text \<open>The \<^verbatim>\<open>catch\<close> of lines 107 to 109, at the end of the body.\<close>

definition body_settles :: "unit res \<Rightarrow> outcome" where
  "body_settles r = (case r of Throw e \<Rightarrow> Rejected e | _ \<Rightarrow> Pending)"

text \<open>A promise keeps its first settlement: a later \<^verbatim>\<open>resolve\<close> or \<^verbatim>\<open>reject\<close> does nothing.\<close>

definition first_settled :: "outcome \<Rightarrow> outcome \<Rightarrow> outcome" where
  "first_settled x y = (if x = Pending then y else x)"

fun is_ListObjectsV2 :: "event \<Rightarrow> bool" where
  "is_ListObjectsV2 (ListObjectsV2 p) = True"
| "is_ListObjectsV2 _ = False"


fun upload_returned :: "env \<Rightarrow> event \<Rightarrow> bool" where
  "upload_returned ev (S3Upload p) = (s3_upload ev p = None)"
| "upload_returned ev _ = False"

text \<open>
  The callback can run only when \<^verbatim>\<open>s3.upload\<close> was called and returned. It runs before
  the end of the body only if the body has waited (\<^verbatim>\<open>await\<close>, line 83); a body that never
  ends is never followed by anything.
\<close>

definition settle :: "env \<Rightarrow> unit run \<Rightarrow> outcome" where
  "settle ev m =
     (case m of (es, r) \<Rightarrow>
        (case (if list_ex (upload_returned ev) es then upload_callback ev else NoCallback) of
           NoCallback \<Rightarrow> body_settles r
         | CallbackWhileListing u p \<Rightarrow>
             (if list_ex is_ListObjectsV2 es then upload_callback_fn u p
              else first_settled (body_settles r) (upload_callback_fn u p))
         | CallbackAfterBody u p \<Rightarrow>
             (if r = Diverge then Pending
              else first_settled (body_settles r) (upload_callback_fn u p))))"

definition archive :: "nat \<Rightarrow> env \<Rightarrow> archive_args \<Rightarrow> event list \<times> outcome" where
  "archive fuel ev a = (fst (archive_body fuel ev a), settle ev (archive_body fuel ev a))"

section \<open>Reading a log\<close>

fun appended :: "event list \<Rightarrow> (read_stream \<times> string) list" where
  "appended [] = []"
| "appended (Append s n # es) = (s, n) # appended es"
| "appended (e # es) = appended es"

fun list_calls :: "event list \<Rightarrow> list_props list" where
  "list_calls [] = []"
| "list_calls (ListObjectsV2 p # es) = p # list_calls es"
| "list_calls (e # es) = list_calls es"

fun opened :: "event list \<Rightarrow> (string \<times> string) list" where
  "opened [] = []"
| "opened (GetObject b k # es) = (b, k) # opened es"
| "opened (e # es) = opened es"

text \<open>
  The pages the lister returned to the listing calls of a log, in order; \<open>n\<close> is the number
  of listing calls made before the first one of the list.
\<close>

fun returned_pages :: "env \<Rightarrow> nat \<Rightarrow> list_props list \<Rightarrow> s3_page list" where
  "returned_pages ev n [] = []"
| "returned_pages ev n (q # qs) =
     (case s3_listObjectsV2 ev n q of Inr page \<Rightarrow> [page] | Inl e \<Rightarrow> [])
       @ returned_pages ev (Suc n) qs"

text \<open>What each call of a log says about the bucket it works on.\<close>

fun on_bucket :: "string \<Rightarrow> event \<Rightarrow> bool" where
  "on_bucket b (S3Upload params) = (get_property params ''Bucket'' = JStr b)"
| "on_bucket b (ListObjectsV2 props) = (lp_Bucket props = b)"
| "on_bucket b (GetObject bucket k) = (bucket = b)"
| "on_bucket b _ = True"

section \<open>Example collaborators and requests\<close>

definition example_pages :: "s3_page list" where
  "example_pages =
     [\<lparr>Contents = [\<lparr>Key = ''dir/''\<rparr>, \<lparr>Key = ''dir/a.txt''\<rparr>],
       NextContinuationToken = JStr ''t1'', IsTruncated = True\<rparr>,
      \<lparr>Contents = [\<lparr>Key = ''dir/b.txt''\<rparr>],
       NextContinuationToken = JStr ''t2'', IsTruncated = True\<rparr>,
      \<lparr>Contents = [],
       NextContinuationToken = JStr ''t3'', IsTruncated = True\<rparr>,
      \<lparr>Contents = [\<lparr>Key = ''dir/sub/c.txt''\<rparr>],
       NextContinuationToken = JUndefined, IsTruncated = False\<rparr>]"

text \<open>A lister that hands out the four pages, each to the token of the page before.\<close>

definition example_lister :: "nat \<Rightarrow> list_props \<Rightarrow> error + s3_page" where
  "example_lister n props =
     (if lp_ContinuationToken props = JNull then Inr (example_pages ! 0)
      else if lp_ContinuationToken props = JStr ''t1'' then Inr (example_pages ! 1)
      else if lp_ContinuationToken props = JStr ''t2'' then Inr (example_pages ! 2)
      else if lp_ContinuationToken props = JStr ''t3'' then Inr (example_pages ! 3)
      else Inl (ExternalError ''InvalidArgument''))"

text \<open>
  Collaborators none of whose calls throws, except the opening of \<^verbatim>\<open>dir/denied.txt\<close>.
  The stream of \<^verbatim>\<open>dir/missing.txt\<close> is returned like any other and its reading fails
  later; \<^verbatim>\<open>append\<close> only queues the stream and returns.
\<close>

definition example_env :: env where
  "example_env =
     \<lparr>archiver_new = (\<lambda>format. None),
      s3_upload = (\<lambda>params. None),
      archiver_pipe = None,
      s3_listObjectsV2 = example_lister,
      s3_getObject = (\<lambda>i bucket k.
         if k = ''dir/denied.txt'' then Inl (ExternalError ''AccessDenied'')
         else if k = ''dir/missing.txt''
           then Inr (ReadStream k (Some (ExternalError ''NoSuchKey'')))
         else Inr (ReadStream k None)),
      archiver_append = (\<lambda>i fileReadStream name. None),
      archiver_finalize = None,
      upload_callback =
        CallbackAfterBody (Inr \<lparr>ud_Bucket = ''bucket'', ud_Key = ''dir/archive.zip''\<rparr>) 1024\<rparr>"

definition example_args :: archive_args where
  "example_args =
     \<lparr>sourceBucket = ''bucket'', sourcePathPrefix = Some ''dir/'', sourceFiles = [],
      outputFilename = None, outputFormat = JUndefined, uploadOptions = [],
      s3FileNameTransform = None\<rparr>"

section \<open>Facts about runs\<close>

lemma bind_run_simps:
  "bind_run (es, Done x) f = (es @ fst (f x), snd (f x))"
  "bind_run (es, Throw e) f = (es, Throw e)"
  "bind_run (es, Diverge) f = (es, Diverge)"
  by (simp_all add: bind_run_def split: prod.splits)

lemma call_simps:
  "call e None = ([e], Done ())"
  "call e (Some x) = ([e], Throw x)"
  "call_returning e (Inl x) = ([e], Throw x)"
  "call_returning e (Inr y) = ([e], Done y)"
  by (simp_all add: call_def call_returning_def)

lemma lift_simps:
  "lift (Inl e) = ([], Throw e)"
  "lift (Inr x) = ([], Done x)"
  by (simp_all add: lift_def)

lemma fst_bind_run:
  "fst (bind_run m f) = (case snd m of Done x \<Rightarrow> fst m @ fst (f x) | _ \<Rightarrow> fst m)"
  by (cases m; cases "snd m") (simp_all add: bind_run_simps)

lemma snd_bind_run:
  "snd (bind_run m f) = (case snd m of Done x \<Rightarrow> snd (f x) | Throw e \<Rightarrow> Throw e | Diverge \<Rightarrow> Diverge)"
  by (cases m; cases "snd m") (simp_all add: bind_run_simps)

lemma all_events_bind:
  assumes "\<forall>e\<in>set (fst m). P e" and "\<And>x. \<forall>e\<in>set (fst (f x)). P e"
  shows "\<forall>e\<in>set (fst (bind_run m f)). P e"
  using assms by (auto simp: fst_bind_run split: res.splits)

lemma all_events_call: "P e \<Longrightarrow> \<forall>x\<in>set (fst (call e r)). P x"
  by (simp add: call_def)

lemma all_events_call_returning: "P e \<Longrightarrow> \<forall>x\<in>set (fst (call_returning e r)). P x"
  by (simp add: call_returning_def)

lemma all_events_lift: "\<forall>x\<in>set (fst (lift r)). P x"
  by (simp add: lift_def)

lemmas example_defs = example_args_def example_env_def example_lister_def example_pages_def

lemmas run_defs = archive_def archive_body_def stream_entries_def resolve_entries_def
  process_entry_def entry_name_def select_format_def default_param_def toLowerCase_def
  lower_char_def upload_params_def spread_def outputFilePath_def sourcePath_def outputName_def
  list_request_def page_keys_def substring_def lastIndexOf_def
  lift_simps call_simps bind_run_simps

subsection \<open>Reading a log\<close>

lemma list_calls_append: "list_calls (xs @ ys) = list_calls xs @ list_calls ys"
  by (induction xs rule: list_calls.induct) simp_all

lemma appended_append: "appended (xs @ ys) = appended xs @ appended ys"
  by (induction xs rule: appended.induct) simp_all

lemma opened_append: "opened (xs @ ys) = opened xs @ opened ys"
  by (induction xs rule: opened.induct) simp_all

lemma list_calls_none:
  "\<forall>e\<in>set es. \<not> is_ListObjectsV2 e \<Longrightarrow> list_calls es = []"
  by (induction es rule: list_calls.induct) simp_all

lemma appended_none:
  "\<forall>e\<in>set es. \<forall>s n. e \<noteq> Append s n \<Longrightarrow> appended es = []"
  by (induction es rule: appended.induct) simp_all

lemma opened_none:
  "\<forall>e\<in>set es. \<forall>b k. e \<noteq> GetObject b k \<Longrightarrow> opened es = []"
  by (induction es rule: opened.induct) simp_all

subsection \<open>The events of each part\<close>

lemma list_loop_events:
  "\<forall>e\<in>set (fst (list_loop fuel ev b sp n tok files)).
     (\<exists>tok'. e = ListObjectsV2 (list_request b sp tok')) \<or> (\<exists>c. e = ConsoleLog (FoundFiles c sp))"
proof (induction fuel arbitrary: n tok files)
  case 0
  show ?case by simp
next
  case (Suc fuel)
  show ?case
  proof (cases "s3_listObjectsV2 ev n (list_request b sp tok)")
    case (Inl e)
    then show ?thesis by auto
  next
    case (Inr page)
    show ?thesis
    proof (cases "IsTruncated page")
      case False
      with Inr show ?thesis by (auto simp: Let_def)
    next
      case True
      with Inr Suc.IH [of "Suc n" "NextContinuationToken page" "files @ page_keys sp page"]
      show ?thesis by (auto simp: Let_def bind_run_simps)
    qed
  qed
qed

lemma resolve_events:
  "\<forall>e\<in>set (fst (resolve_entries fuel ev a)).
     (\<exists>tok. e = ListObjectsV2 (list_request (sourceBucket a) (sourcePath a) tok))
     \<or> (\<exists>l. e = ConsoleLog l \<and> (\<forall>fs. l \<noteq> WorkingWith fs))"
proof (cases "sourceFiles a \<noteq> []")
  case True
  then show ?thesis by (simp add: resolve_entries_def)
next
  case False
  have "\<forall>e\<in>set (fst (list_loop fuel ev (sourceBucket a) (sourcePath a) 0 JNull (sourceFiles a))).
     (\<exists>tok. e = ListObjectsV2 (list_request (sourceBucket a) (sourcePath a) tok))
     \<or> (\<exists>l. e = ConsoleLog l \<and> (\<forall>fs. l \<noteq> WorkingWith fs))"
    using list_loop_events [of fuel ev "sourceBucket a" "sourcePath a" 0 JNull "sourceFiles a"]
    by fastforce
  then have ll: "\<forall>e\<in>set (fst (list_loop fuel ev (sourceBucket a) (sourcePath a) 0 JNull [])).
     (\<exists>tok. e = ListObjectsV2 (list_request (sourceBucket a) (sourcePath a) tok))
     \<or> (\<exists>l. e = ConsoleLog l \<and> (\<forall>fs. l \<noteq> WorkingWith fs))"
    using False by simp
  from False have "resolve_entries fuel ev a =
     bind_run (list_loop fuel ev (sourceBucket a) (sourcePath a) 0 JNull [])
       (\<lambda>files. ([ConsoleLog (FoundTotalFiles (length files) (sourcePath a))], Done files))"
    by (simp add: resolve_entries_def)
  then show ?thesis
    by (simp only:) (rule all_events_bind [OF ll], simp)
qed

lemma process_entry_events:
  "\<forall>e\<in>set (fst (process_entry ev a i k)).
     e = GetObject (sourceBucket a) k \<or> (\<exists>s n. e = Append s n)"
  unfolding process_entry_def
  by (intro all_events_bind all_events_call all_events_call_returning all_events_lift ballI) auto

lemma append_files_events:
  "\<forall>e\<in>set (fst (append_files ev a i fs)).
     (\<exists>k. e = GetObject (sourceBucket a) k) \<or> (\<exists>s n. e = Append s n)"
proof (induction fs arbitrary: i)
  case Nil
  show ?case by simp
next
  case (Cons k fs)
  have "\<forall>e\<in>set (fst (process_entry ev a i k)).
     (\<exists>k. e = GetObject (sourceBucket a) k) \<or> (\<exists>s n. e = Append s n)"
    using process_entry_events [of ev a i k] by blast
  with Cons.IH show ?case
    by (simp only: append_files.simps) (rule all_events_bind; blast)
qed

lemma append_files_no_listing:
  "\<forall>e\<in>set (fst (append_files ev a i fs)). \<not> is_ListObjectsV2 e"
  using append_files_events [of ev a i fs] by fastforce

lemma tail_no_listing:
  "list_calls (fst (bind_run (append_files ev a i fs) (\<lambda>_. call Finalize r))) = []"
  by (rule list_calls_none, rule all_events_bind [OF append_files_no_listing]) (simp add: call_def)

lemma resolve_quiet:
  "appended (fst (resolve_entries fuel ev a)) = []"
  "opened (fst (resolve_entries fuel ev a)) = []"
  "Finalize \<notin> set (fst (resolve_entries fuel ev a))"
  "ConsoleLog (WorkingWith fs) \<notin> set (fst (resolve_entries fuel ev a))"
proof -
  let ?es = "fst (resolve_entries fuel ev a)"
  have q: "\<forall>e\<in>set ?es. (\<exists>q. e = ListObjectsV2 q) \<or> (\<exists>l. e = ConsoleLog l \<and> (\<forall>fs. l \<noteq> WorkingWith fs))"
    using resolve_events [of fuel ev a] by blast
  then show "appended ?es = []"
    by (intro appended_none) blast
  from q show "opened ?es = []"
    by (intro opened_none) blast
  from q show "Finalize \<notin> set ?es" by blast
  from q show "ConsoleLog (WorkingWith fs) \<notin> set ?es" by blast
qed

subsection \<open>The shape of a run of the body\<close>

lemma archive_body_cases:
  obtains
    (format) "select_format (default_param (JStr ''zip'') (outputFormat a)) = Inl TypeError"
      "archive_body fuel ev a = ([], Throw TypeError)"
  | (archiver) fmt e where "select_format (default_param (JStr ''zip'') (outputFormat a)) = Inr fmt"
      "archiver_new ev fmt = Some e"
      "archive_body fuel ev a = ([NewArchiver fmt], Throw e)"
  | (upload) fmt e where "select_format (default_param (JStr ''zip'') (outputFormat a)) = Inr fmt"
      "archiver_new ev fmt = None" "s3_upload ev (upload_params a fmt) = Some e"
      "archive_body fuel ev a = ([NewArchiver fmt, S3Upload (upload_params a fmt)], Throw e)"
  | (pipe) fmt e where "select_format (default_param (JStr ''zip'') (outputFormat a)) = Inr fmt"
      "archiver_new ev fmt = None" "s3_upload ev (upload_params a fmt) = None"
      "archiver_pipe ev = Some e"
      "archive_body fuel ev a = ([NewArchiver fmt, S3Upload (upload_params a fmt), Pipe], Throw e)"
  | (wired) fmt where "select_format (default_param (JStr ''zip'') (outputFormat a)) = Inr fmt"
      "archiver_new ev fmt = None" "s3_upload ev (upload_params a fmt) = None"
      "archiver_pipe ev = None"
      "archive_body fuel ev a =
         (NewArchiver fmt # S3Upload (upload_params a fmt) # Pipe # fst (stream_entries fuel ev a),
          snd (stream_entries fuel ev a))"
proof (cases "select_format (default_param (JStr ''zip'') (outputFormat a))")
  case (Inl e)
  then have "e = TypeError"
    by (auto simp: select_format_def split: js_value.splits)
  with Inl format show ?thesis
    by (simp add: archive_body_def lift_simps bind_run_simps)
next
  case (Inr fmt)
  show ?thesis
  proof (cases "archiver_new ev fmt")
    case (Some e)
    with Inr archiver show ?thesis
      by (simp add: archive_body_def lift_simps call_simps bind_run_simps)
  next
    case None
    note new = this
    show ?thesis
    proof (cases "s3_upload ev (upload_params a fmt)")
      case (Some e)
      with Inr new upload show ?thesis
        by (simp add: archive_body_def lift_simps call_simps bind_run_simps)
    next
      case None
      note up = this
      show ?thesis
      proof (cases "archiver_pipe ev")
        case (Some e)
        with Inr new up pipe show ?thesis
          by (simp add: archive_body_def lift_simps call_simps bind_run_simps)
      next
        case None
        with Inr new up wired show ?thesis
          by (simp add: archive_body_def stream_entries_def lift_simps call_simps bind_run_simps)
      qed
    qed
  qed
qed

lemma working_with:
  assumes "ConsoleLog (WorkingWith fs) \<in> set (fst (archive_body fuel ev a))"
  obtains fmt es where "resolve_entries fuel ev a = (es, Done fs)"
    "archive_body fuel ev a =
       (NewArchiver fmt # S3Upload (upload_params a fmt) # Pipe # es @ ConsoleLog (WorkingWith fs)
          # fst (bind_run (append_files ev a 0 fs) (\<lambda>_. call Finalize (archiver_finalize ev))),
        snd (bind_run (append_files ev a 0 fs) (\<lambda>_. call Finalize (archiver_finalize ev))))"
proof (rule archive_body_cases [where a = a and fuel = fuel and ev = ev])
  fix fmt
  assume b: "archive_body fuel ev a =
         (NewArchiver fmt # S3Upload (upload_params a fmt) # Pipe # fst (stream_entries fuel ev a),
          snd (stream_entries fuel ev a))"
  with assms have w: "ConsoleLog (WorkingWith fs) \<in> set (fst (stream_entries fuel ev a))"
    by simp
  obtain es r where r: "resolve_entries fuel ev a = (es, r)"
    by (cases "resolve_entries fuel ev a")
  have nw: "ConsoleLog (WorkingWith fs) \<notin> set es"
    using resolve_quiet(4) [of fs fuel ev a] r by simp
  show thesis
  proof (cases r)
    case (Done files)
    have na: "ConsoleLog (WorkingWith fs)
        \<notin> set (fst (bind_run (append_files ev a 0 files) (\<lambda>_. call Finalize (archiver_finalize ev))))"
      using append_files_events [of ev a 0 files]
      by (auto simp: fst_bind_run call_def split: res.splits)
    from w r Done nw na have "files = fs"
      by (auto simp: stream_entries_def bind_run_simps call_simps)
    with r Done b that [of es fmt] show thesis
      by (simp add: stream_entries_def bind_run_simps call_simps)
  next
    case (Throw e)
    with w r nw show thesis
      by (simp add: stream_entries_def bind_run_simps)
  next
    case Diverge
    with w r nw show thesis
      by (simp add: stream_entries_def bind_run_simps)
  qed
qed (use assms in simp_all)

lemma stream_entries_list_calls:
  "list_calls (fst (stream_entries fuel ev a)) = list_calls (fst (resolve_entries fuel ev a))"
proof (cases "resolve_entries fuel ev a")
  case (Pair es r)
  then show ?thesis
    by (cases r)
      (simp_all add: stream_entries_def bind_run_simps call_simps list_calls_append tail_no_listing)
qed

lemma archive_list_calls:
  "list_calls (fst (archive fuel ev a)) = []
   \<or> list_calls (fst (archive fuel ev a)) = list_calls (fst (resolve_entries fuel ev a))"
proof (rule archive_body_cases [where a = a and fuel = fuel and ev = ev])
qed (simp_all add: archive_def stream_entries_list_calls)

lemma archive_appended:
  assumes "ConsoleLog (WorkingWith fs) \<in> set (fst (archive fuel ev a))"
  shows "appended (fst (archive fuel ev a)) = appended (fst (append_files ev a 0 fs))"
    and "map snd (opened (fst (archive fuel ev a))) = map snd (opened (fst (append_files ev a 0 fs)))"
    and "Finalize \<in> set (fst (archive fuel ev a)) \<longleftrightarrow> snd (append_files ev a 0 fs) = Done ()"
    and "snd (append_files ev a 0 fs) = Throw e \<Longrightarrow> snd (archive_body fuel ev a) = Throw e"
    and "sourceFiles a \<noteq> [] \<Longrightarrow> \<not> list_ex is_ListObjectsV2 (fst (archive_body fuel ev a))"
proof -
  from assms have "ConsoleLog (WorkingWith fs) \<in> set (fst (archive_body fuel ev a))"
    by (simp add: archive_def)
  then obtain fmt es where r: "resolve_entries fuel ev a = (es, Done fs)"
    and b: "archive_body fuel ev a =
       (NewArchiver fmt # S3Upload (upload_params a fmt) # Pipe # es @ ConsoleLog (WorkingWith fs)
          # fst (bind_run (append_files ev a 0 fs) (\<lambda>_. call Finalize (archiver_finalize ev))),
        snd (bind_run (append_files ev a 0 fs) (\<lambda>_. call Finalize (archiver_finalize ev))))"
    by (rule working_with)
  from resolve_quiet(1,2,3) [of fuel ev a] r
  have q: "appended es = []" "opened es = []" "Finalize \<notin> set es"
    by simp_all
  have nf: "Finalize \<notin> set (fst (append_files ev a 0 fs))"
    using append_files_events [of ev a 0 fs] by auto
  obtain fe fr where af: "append_files ev a 0 fs = (fe, fr)"
    by (cases "append_files ev a 0 fs")
  show "appended (fst (archive fuel ev a)) = appended (fst (append_files ev a 0 fs))"
    by (cases fr) (simp_all add: archive_def b af q appended_append bind_run_simps call_def)
  show "map snd (opened (fst (archive fuel ev a))) = map snd (opened (fst (append_files ev a 0 fs)))"
    by (cases fr) (simp_all add: archive_def b af q opened_append bind_run_simps call_def)
  show "Finalize \<in> set (fst (archive fuel ev a)) \<longleftrightarrow> snd (append_files ev a 0 fs) = Done ()"
    using nf by (cases fr) (simp_all add: archive_def b af q bind_run_simps call_def)
  show "snd (archive_body fuel ev a) = Throw e" if "snd (append_files ev a 0 fs) = Throw e"
    using that by (simp add: b af bind_run_simps)
  show "\<not> list_ex is_ListObjectsV2 (fst (archive_body fuel ev a))" if "sourceFiles a \<noteq> []"
  proof -
    from that r have "es = []" by (simp add: resolve_entries_def)
    moreover have "\<forall>e\<in>set (fst (bind_run (append_files ev a 0 fs)
        (\<lambda>_. call Finalize (archiver_finalize ev)))). \<not> is_ListObjectsV2 e"
      by (rule all_events_bind [OF append_files_no_listing]) (simp add: call_def)
    ultimately show ?thesis
      by (simp add: b list_ex_iff)
  qed
qed

subsection \<open>The upload parameters\<close>

lemma map_of_set_property: "map_of (set_property k v obj) = (map_of obj)(k \<mapsto> v)"
  by (induction obj) (auto simp: fun_upd_twist)

lemma map_of_spread_other:
  "k \<notin> fst ` set src \<Longrightarrow> map_of (spread obj src) k = map_of obj k"
  unfolding spread_def
  by (induction src arbitrary: obj) (auto simp: map_of_set_property)

lemma upload_params_Bucket:
  "''Bucket'' \<notin> fst ` set (uploadOptions a) \<Longrightarrow>
     get_property (upload_params a fmt) ''Bucket'' = JStr (sourceBucket a)"
  by (simp add: get_property_def upload_params_def map_of_spread_other)

lemma stream_entries_on_bucket:
  "\<forall>e\<in>set (fst (stream_entries fuel ev a)). on_bucket (sourceBucket a) e"
proof -
  have r: "\<forall>e\<in>set (fst (resolve_entries fuel ev a)). on_bucket (sourceBucket a) e"
    using resolve_events [of fuel ev a] by (fastforce simp: list_request_def)
  have f: "\<forall>e\<in>set (fst (append_files ev a 0 fs)). on_bucket (sourceBucket a) e" for fs
    using append_files_events [of ev a 0 fs] by fastforce
  show ?thesis
    unfolding stream_entries_def
    by (intro all_events_bind all_events_call r f) simp_all
qed

subsection \<open>The listing loop\<close>

lemma list_loop_pages:
  "list_loop fuel ev b sp n tok files = (es, Done files') \<Longrightarrow>
     files' = files @ concat (map (page_keys sp) (returned_pages ev n (list_calls es)))"
proof (induction fuel arbitrary: n tok files es)
  case 0
  then show ?case by simp
next
  case (Suc fuel)
  show ?case
  proof (cases "s3_listObjectsV2 ev n (list_request b sp tok)")
    case (Inl e)
    with Suc.prems show ?thesis by simp
  next
    case (Inr page)
    show ?thesis
    proof (cases "IsTruncated page")
      case False
      with Inr Suc.prems show ?thesis by (auto simp: Let_def)
    next
      case True
      obtain es' r where rec: "list_loop fuel ev b sp (Suc n) (NextContinuationToken page)
          (files @ page_keys sp page) = (es', r)"
        by (cases "list_loop fuel ev b sp (Suc n) (NextContinuationToken page)
          (files @ page_keys sp page)")
      with Inr True Suc.prems have es: "es = ListObjectsV2 (list_request b sp tok)
          # ConsoleLog (FoundFiles (length (files @ page_keys sp page)) sp) # es'"
        and r: "r = Done files'"
        by (simp_all add: Let_def bind_run_simps)
      from Suc.IH [OF rec [unfolded r]] Inr show ?thesis
        by (simp add: es)
    qed
  qed
qed

lemma list_loop_chain:
  assumes "ps \<noteq> []"
    and "\<forall>k<length ps. s3_listObjectsV2 ev (n + k)
            (list_request b sp ((tok # map NextContinuationToken ps) ! k)) = Inr (ps ! k)"
    and "\<forall>k<length ps. IsTruncated (ps ! k) = (Suc k < length ps)"
  shows "(length ps \<le> fuel \<longrightarrow>
           (\<exists>es. list_loop fuel ev b sp n tok files = (es, Done (files @ concat (map (page_keys sp) ps)))
              \<and> list_calls es = map (list_request b sp) (tok # map NextContinuationToken (butlast ps))))
       \<and> (fuel < length ps \<longrightarrow>
           (\<exists>es. list_loop fuel ev b sp n tok files = (es, Diverge) \<and> length (list_calls es) = fuel))"
  using assms
proof (induction ps arbitrary: fuel n tok files)
  case Nil
  then show ?case by simp
next
  case (Cons p ps)
  show ?case
  proof (cases fuel)
    case 0
    then show ?thesis by simp
  next
    case (Suc f)
    from Cons.prems(2) [rule_format, of 0]
    have first: "s3_listObjectsV2 ev n (list_request b sp tok) = Inr p"
      by simp
    from Cons.prems(3) [rule_format, of 0] have trunc: "IsTruncated p = (ps \<noteq> [])"
      by simp
    show ?thesis
    proof (cases "ps = []")
      case True
      with first trunc Suc show ?thesis
        by (simp add: Let_def)
    next
      case False
      have c: "\<forall>k<length ps. s3_listObjectsV2 ev (Suc n + k)
            (list_request b sp ((NextContinuationToken p # map NextContinuationToken ps) ! k))
              = Inr (ps ! k)"
      proof (intro allI impI)
        fix k assume "k < length ps"
        then have "Suc k < length (p # ps)" by simp
        with Cons.prems(2) have "s3_listObjectsV2 ev (n + Suc k)
            (list_request b sp ((tok # map NextContinuationToken (p # ps)) ! Suc k))
              = Inr ((p # ps) ! Suc k)"
          by blast
        then show "s3_listObjectsV2 ev (Suc n + k)
            (list_request b sp ((NextContinuationToken p # map NextContinuationToken ps) ! k))
              = Inr (ps ! k)"
          by simp
      qed
      have t: "\<forall>k<length ps. IsTruncated (ps ! k) = (Suc k < length ps)"
      proof (intro allI impI)
        fix k assume "k < length ps"
        then have "Suc k < length (p # ps)" by simp
        with Cons.prems(3) have "IsTruncated ((p # ps) ! Suc k) = (Suc (Suc k) < length (p # ps))"
          by blast
        then show "IsTruncated (ps ! k) = (Suc k < length ps)" by simp
      qed
      note IH = Cons.IH [OF False c t, of f "files @ page_keys sp p"]
      show ?thesis
      proof (cases "length ps \<le> f")
        case True
        with IH obtain es where
          "list_loop f ev b sp (Suc n) (NextContinuationToken p) (files @ page_keys sp p)
             = (es, Done ((files @ page_keys sp p) @ concat (map (page_keys sp) ps)))"
          "list_calls es = map (list_request b sp)
             (NextContinuationToken p # map NextContinuationToken (butlast ps))"
          by blast
        with first trunc False Suc True show ?thesis
          by (simp add: Let_def bind_run_simps)
      next
        case nf: False
        with IH obtain es where
          "list_loop f ev b sp (Suc n) (NextContinuationToken p) (files @ page_keys sp p)
             = (es, Diverge)" "length (list_calls es) = f"
          by auto
        with first trunc False Suc nf show ?thesis
          by (simp add: Let_def bind_run_simps)
      qed
    qed
  qed
qed

subsection \<open>The loop over the entries\<close>

lemma process_entry_shape:
  "(fst (process_entry ev a i k) = [GetObject (sourceBucket a) k]
      \<and> (\<exists>e. snd (process_entry ev a i k) = Throw e))
   \<or> (\<exists>s n. s3_getObject ev i (sourceBucket a) k = Inr s \<and> entry_name a k = Inr n
        \<and> fst (process_entry ev a i k) = [GetObject (sourceBucket a) k, Append s n]
        \<and> snd (process_entry ev a i k) \<noteq> Diverge)"
proof (cases "s3_getObject ev i (sourceBucket a) k")
  case (Inl e)
  then show ?thesis by (simp add: process_entry_def call_simps bind_run_simps)
next
  case (Inr s)
  note g = this
  show ?thesis
  proof (cases "entry_name a k")
    case (Inl e)
    with g show ?thesis by (simp add: process_entry_def call_simps lift_simps bind_run_simps)
  next
    case (Inr n)
    with g show ?thesis
      by (cases "archiver_append ev i s n")
        (simp_all add: process_entry_def call_simps lift_simps bind_run_simps)
  qed
qed

lemma process_entry_Done:
  assumes "snd (process_entry ev a i k) = Done ()"
  shows "\<exists>s n. s3_getObject ev i (sourceBucket a) k = Inr s \<and> entry_name a k = Inr n
     \<and> process_entry ev a i k = ([GetObject (sourceBucket a) k, Append s n], Done ())"
  using process_entry_shape [of ev a i k] assms by (auto simp: prod_eq_iff)

lemma append_files_names:
  "length (appended (fst (append_files ev a i fs))) \<le> length fs
   \<and> (\<forall>j<length (appended (fst (append_files ev a i fs))).
         s3_getObject ev (i + j) (sourceBucket a) (fs ! j)
           = Inr (fst (appended (fst (append_files ev a i fs)) ! j))
         \<and> entry_name a (fs ! j) = Inr (snd (appended (fst (append_files ev a i fs)) ! j)))
   \<and> (snd (append_files ev a i fs) = Done ()
        \<longrightarrow> length (appended (fst (append_files ev a i fs))) = length fs)
   \<and> snd (append_files ev a i fs) \<noteq> Diverge"
proof (induction fs arbitrary: i)
  case Nil
  show ?case by simp
next
  case (Cons k fs)
  from process_entry_shape [of ev a i k] show ?case
  proof (elim disjE conjE exE)
    fix e
    assume "fst (process_entry ev a i k) = [GetObject (sourceBucket a) k]"
      "snd (process_entry ev a i k) = Throw e"
    then have "process_entry ev a i k = ([GetObject (sourceBucket a) k], Throw e)"
      by (simp add: prod_eq_iff)
    then show ?thesis
      by (simp add: bind_run_simps)
  next
    fix s n
    assume g: "s3_getObject ev i (sourceBucket a) k = Inr s"
      and n: "entry_name a k = Inr n"
      and f: "fst (process_entry ev a i k) = [GetObject (sourceBucket a) k, Append s n]"
      and d: "snd (process_entry ev a i k) \<noteq> Diverge"
    show ?thesis
    proof (cases "snd (process_entry ev a i k)")
      case (Done u)
      with f have p: "process_entry ev a i k = ([GetObject (sourceBucket a) k, Append s n], Done ())"
        by (simp add: prod_eq_iff)
      let ?A = "appended (fst (append_files ev a (Suc i) fs))"
      from Cons.IH [of "Suc i"] have len: "length ?A \<le> length fs"
        and each: "\<forall>j<length ?A.
            s3_getObject ev (Suc i + j) (sourceBucket a) (fs ! j) = Inr (fst (?A ! j))
            \<and> entry_name a (fs ! j) = Inr (snd (?A ! j))"
        and fin: "snd (append_files ev a (Suc i) fs) = Done () \<longrightarrow> length ?A = length fs"
        and nd: "snd (append_files ev a (Suc i) fs) \<noteq> Diverge"
        by blast+
      have A: "appended (fst (append_files ev a i (k # fs))) = (s, n) # ?A"
        and S: "snd (append_files ev a i (k # fs)) = snd (append_files ev a (Suc i) fs)"
        by (simp_all add: p bind_run_simps)
      have "\<forall>j<length ((s, n) # ?A).
            s3_getObject ev (i + j) (sourceBucket a) ((k # fs) ! j) = Inr (fst (((s, n) # ?A) ! j))
            \<and> entry_name a ((k # fs) ! j) = Inr (snd (((s, n) # ?A) ! j))"
      proof (intro allI impI)
        fix j assume j: "j < length ((s, n) # ?A)"
        show "s3_getObject ev (i + j) (sourceBucket a) ((k # fs) ! j)
                = Inr (fst (((s, n) # ?A) ! j))
            \<and> entry_name a ((k # fs) ! j) = Inr (snd (((s, n) # ?A) ! j))"
        proof (cases j)
          case 0
          with g n show ?thesis by simp
        next
          case (Suc j')
          with j have "j' < length ?A" by simp
          with each Suc show ?thesis by simp
        qed
      qed
      with len fin nd show ?thesis
        unfolding A S by simp
    next
      case (Throw e)
      with f have "process_entry ev a i k = ([GetObject (sourceBucket a) k, Append s n], Throw e)"
        by (simp add: prod_eq_iff)
      then show ?thesis
        by (simp add: g n bind_run_simps)
    next
      case Diverge
      with d show ?thesis by simp
    qed
  qed
qed

lemma append_files_fail:
  assumes "\<forall>j<length pre. snd (process_entry ev a (i + j) (pre ! j)) = Done ()"
    and "snd (process_entry ev a (i + length pre) k) = Throw e"
  shows "snd (append_files ev a i (pre @ k # post)) = Throw e
       \<and> map snd (opened (fst (append_files ev a i (pre @ k # post)))) = pre @ [k]
       \<and> (length (appended (fst (append_files ev a i (pre @ k # post)))) = length pre
          \<or> length (appended (fst (append_files ev a i (pre @ k # post)))) = Suc (length pre))"
  using assms
proof (induction pre arbitrary: i)
  case Nil
  then have t: "snd (process_entry ev a i k) = Throw e" by simp
  from process_entry_shape [of ev a i k] t
  have "process_entry ev a i k = ([GetObject (sourceBucket a) k], Throw e)
      \<or> (\<exists>s n. process_entry ev a i k = ([GetObject (sourceBucket a) k, Append s n], Throw e))"
    by (auto simp: prod_eq_iff)
  then show ?case
    by (auto simp: bind_run_simps)
next
  case (Cons p pre)
  from Cons.prems(1) [rule_format, of 0] have "snd (process_entry ev a i p) = Done ()"
    by simp
  from process_entry_Done [OF this] obtain s n where
    p: "process_entry ev a i p = ([GetObject (sourceBucket a) p, Append s n], Done ())"
    by blast
  have h1: "\<forall>j<length pre. snd (process_entry ev a (Suc i + j) (pre ! j)) = Done ()"
  proof (intro allI impI)
    fix j assume "j < length pre"
    then have "Suc j < length (p # pre)" by simp
    from Cons.prems(1) [rule_format, OF this]
    show "snd (process_entry ev a (Suc i + j) (pre ! j)) = Done ()" by simp
  qed
  have h2: "snd (process_entry ev a (Suc i + length pre) k) = Throw e"
    using Cons.prems(2) by simp
  from Cons.IH [OF h1 h2] show ?case
    by (simp add: p bind_run_simps)
qed

subsection \<open>The default entry name\<close>

lemma lastIndexOf_from_spec:
  "(c \<notin> set xs \<and> lastIndexOf_from xs c i found = found)
   \<or> (\<exists>pre suf. xs = pre @ c # suf \<and> c \<notin> set suf
         \<and> lastIndexOf_from xs c i found = i + int (length pre))"
proof (induction xs arbitrary: i found)
  case Nil
  show ?case by simp
next
  case (Cons x xs)
  from Cons.IH [of "i + 1" "if x = c then i else found"] show ?case
  proof (elim disjE conjE exE)
    assume n: "c \<notin> set xs"
      and l: "lastIndexOf_from xs c (i + 1) (if x = c then i else found)
        = (if x = c then i else found)"
    show ?thesis
    proof (cases "x = c")
      case True
      with n l have "x # xs = [] @ c # xs \<and> c \<notin> set xs
         \<and> lastIndexOf_from (x # xs) c i found = i + int (length ([] :: string))"
        by simp
      then show ?thesis by blast
    next
      case False
      with n l show ?thesis by simp
    qed
  next
    fix pre suf
    assume "xs = pre @ c # suf" "c \<notin> set suf"
      "lastIndexOf_from xs c (i + 1) (if x = c then i else found) = i + 1 + int (length pre)"
    then have "x # xs = (x # pre) @ c # suf \<and> c \<notin> set suf
         \<and> lastIndexOf_from (x # xs) c i found = i + int (length (x # pre))"
      by simp
    then show ?thesis by blast
  qed
qed

lemma default_name:
  "\<exists>pre name. substring k (lastIndexOf k c + 1) = name \<and> k = pre @ name
      \<and> c \<notin> set name \<and> (pre = [] \<or> last pre = c)"
  using lastIndexOf_from_spec [of c k 0 "- 1"]
proof (elim disjE conjE exE)
  assume "c \<notin> set k" "lastIndexOf_from k c 0 (- 1) = - 1"
  then have "substring k (lastIndexOf k c + 1) = k \<and> k = [] @ k \<and> c \<notin> set k"
    by (simp add: substring_def lastIndexOf_def)
  then show ?thesis by blast
next
  fix pre suf :: string
  have n: "nat (int (length pre) + 1) = Suc (length pre)" by simp
  assume "k = pre @ c # suf" "c \<notin> set suf"
    "lastIndexOf_from k c 0 (- 1) = 0 + int (length pre)"
  with n have "substring k (lastIndexOf k c + 1) = suf \<and> k = (pre @ [c]) @ suf \<and> c \<notin> set suf
      \<and> last (pre @ [c]) = c"
    by (simp add: substring_def lastIndexOf_def)
  then show ?thesis by blast
qed

subsection \<open>The promise\<close>

lemmas settle_defs = settle_def body_settles_def first_settled_def upload_callback_fn_def

lemma settle_Throw:
  assumes "\<not> list_ex is_ListObjectsV2 es \<or> (\<forall>u p. upload_callback ev \<noteq> CallbackWhileListing u p)"
  shows "settle ev (es, Throw e) = Rejected e"
  using assms
  by (cases "upload_callback ev")
    (auto simp: settle_def body_settles_def first_settled_def)

text \<open>
  A resolved promise carries what the upload's callback was given: the bucket and key of
  the upload's answer, and the value of \<^verbatim>\<open>streamArchiver.pointer()\<close> read in the callback.
\<close>

lemma resolved_result:
  assumes "snd (archive fuel ev a) = Resolved r"
  shows "\<exists>d p. (upload_callback ev = CallbackWhileListing (Inr d) p
                  \<or> upload_callback ev = CallbackAfterBody (Inr d) p)
           \<and> r = \<lparr>s3Bucket = ud_Bucket d, fileKey = ud_Key d, fileSize = p\<rparr>"
proof -
  obtain es x where b: "archive_body fuel ev a = (es, x)"
    by (cases "archive_body fuel ev a")
  have body: "body_settles x \<noteq> Resolved r"
    by (cases x) (simp_all add: body_settles_def)
  have first: "y = Resolved r" if "first_settled (body_settles x) y = Resolved r" for y
    using that body by (simp add: first_settled_def split: if_splits)
  have cb: "\<exists>d. u = Inr d \<and> r = \<lparr>s3Bucket = ud_Bucket d, fileKey = ud_Key d, fileSize = p\<rparr>"
    if "upload_callback_fn u p = Resolved r" for u p
    using that by (cases u) (auto simp: upload_callback_fn_def)
  from assms b have s: "settle ev (es, x) = Resolved r"
    by (simp add: archive_def)
  show ?thesis
  proof (cases "upload_callback ev")
    case NoCallback
    from s body show ?thesis
      by (simp add: settle_def NoCallback split: if_splits)
  next
    case (CallbackWhileListing u p)
    from s body have "upload_callback_fn u p = Resolved r"
      by (auto simp: settle_def CallbackWhileListing split: if_splits dest: first)
    from cb [OF this] CallbackWhileListing show ?thesis by blast
  next
    case (CallbackAfterBody u p)
    from s body have "upload_callback_fn u p = Resolved r"
      by (auto simp: settle_def CallbackAfterBody split: if_splits dest: first)
    from cb [OF this] CallbackAfterBody show ?thesis by blast
  qed
qed

section \<open>The properties of the specification\<close>

subsection \<open>Fail fast in the loop over the entries\<close>

text \<open>
  Claim C2, for failures that are thrown. Take a run that reaches the loop of lines 97 to
  104 with the resolved entries \<open>pre @ k # post\<close> (it has logged them, line 95), in which
  every entry of \<open>pre\<close> is opened, named and appended without a throw, and in which a call
  made for \<open>k\<close> (opening the read stream, naming the entry, or the append) throws \<open>e\<close>.
  Then the promise is rejected with \<open>e\<close>, so no result is produced; the entries opened are
  exactly \<open>pre\<close> and \<open>k\<close>; the archiver was given the streams of \<open>pre\<close>, and that of \<open>k\<close>
  when it was the append that threw; no entry of \<open>post\<close> is opened or appended, and the
  archiver is not finalized. With \<open>pre\<close> and \<open>post\<close> of length one, \<open>k\<close> is the second of
  three entries.

  The completion callback of the upload is assumed not to have run before the failure:
  with explicit entries the body never waits, so this always holds.
\<close>

theorem fail_fast:
  assumes "ConsoleLog (WorkingWith (pre @ k # post)) \<in> set (fst (archive fuel ev a))"
    and "\<forall>j<length pre. snd (process_entry ev a j (pre ! j)) = Done ()"
    and "snd (process_entry ev a (length pre) k) = Throw e"
    and "sourceFiles a \<noteq> [] \<or> (\<forall>u p. upload_callback ev \<noteq> CallbackWhileListing u p)"
  shows "snd (archive fuel ev a) = Rejected e
       \<and> map snd (opened (fst (archive fuel ev a))) = pre @ [k]
       \<and> (length (appended (fst (archive fuel ev a))) = length pre
          \<or> length (appended (fst (archive fuel ev a))) = Suc (length pre))
       \<and> (\<forall>j<length (appended (fst (archive fuel ev a))).
             s3_getObject ev j (sourceBucket a) ((pre @ [k]) ! j)
               = Inr (fst (appended (fst (archive fuel ev a)) ! j)))
       \<and> Finalize \<notin> set (fst (archive fuel ev a))"
proof -
  have h1: "\<forall>j<length pre. snd (process_entry ev a (0 + j) (pre ! j)) = Done ()"
    using assms(2) by simp
  have h2: "snd (process_entry ev a (0 + length pre) k) = Throw e"
    using assms(3) by simp
  note f = append_files_fail [OF h1 h2, of post]
  note aa = archive_appended [OF assms(1)]
  from f have t: "snd (append_files ev a 0 (pre @ k # post)) = Throw e" by simp
  have "snd (archive_body fuel ev a) = Throw e"
    by (rule aa(4) [OF t])
  then have b: "archive_body fuel ev a = (fst (archive_body fuel ev a), Throw e)"
    by (simp add: prod_eq_iff)
  have "\<not> list_ex is_ListObjectsV2 (fst (archive_body fuel ev a))
      \<or> (\<forall>u p. upload_callback ev \<noteq> CallbackWhileListing u p)"
    using assms(4) aa(5) by blast
  from settle_Throw [OF this, of e] b have "snd (archive fuel ev a) = Rejected e"
    by (simp add: archive_def)
  moreover have "Finalize \<notin> set (fst (archive fuel ev a))"
    using aa(3) t by simp
  moreover have "\<forall>j<length (appended (fst (archive fuel ev a))).
             s3_getObject ev j (sourceBucket a) ((pre @ [k]) ! j)
               = Inr (fst (appended (fst (archive fuel ev a)) ! j))"
  proof (intro allI impI)
    fix j assume j: "j < length (appended (fst (archive fuel ev a)))"
    with f have "j < Suc (length pre)"
      by (auto simp: aa(1))
    then have same: "(pre @ k # post) ! j = (pre @ [k]) ! j"
      by (cases "j < length pre") (simp_all add: nth_append less_Suc_eq)
    from append_files_names [of ev a 0 "pre @ k # post"] j
    have "s3_getObject ev j (sourceBucket a) ((pre @ k # post) ! j)
        = Inr (fst (appended (fst (archive fuel ev a)) ! j))"
      by (simp add: aa(1))
    with same show "s3_getObject ev j (sourceBucket a) ((pre @ [k]) ! j)
        = Inr (fst (appended (fst (archive fuel ev a)) ! j))"
      by simp
  qed
  ultimately show ?thesis
    using f by (simp add: aa(1,2))
qed

theorem fail_fast_witness:
  "ConsoleLog (WorkingWith ([''dir/a.txt''] @ ''dir/denied.txt'' # [''dir/c.txt'']))
     \<in> set (fst (archive 0 example_env
          (example_args\<lparr>sourceFiles := [''a.txt'', ''denied.txt'', ''c.txt'']\<rparr>)))
   \<and> snd (process_entry example_env
            (example_args\<lparr>sourceFiles := [''a.txt'', ''denied.txt'', ''c.txt'']\<rparr>) 0
            ''dir/a.txt'') = Done ()
   \<and> snd (process_entry example_env
            (example_args\<lparr>sourceFiles := [''a.txt'', ''denied.txt'', ''c.txt'']\<rparr>)
            (length [''dir/a.txt'']) ''dir/denied.txt'') = Throw (ExternalError ''AccessDenied'')
   \<and> sourceFiles (example_args\<lparr>sourceFiles := [''a.txt'', ''denied.txt'', ''c.txt'']\<rparr>) \<noteq> []
   \<and> snd (archive 0 example_env
            (example_args\<lparr>sourceFiles := [''a.txt'', ''denied.txt'', ''c.txt'']\<rparr>))
       = Rejected (ExternalError ''AccessDenied'')
   \<and> map snd (opened (fst (archive 0 example_env
            (example_args\<lparr>sourceFiles := [''a.txt'', ''denied.txt'', ''c.txt'']\<rparr>))))
       = [''dir/a.txt'', ''dir/denied.txt'']
   \<and> appended (fst (archive 0 example_env
            (example_args\<lparr>sourceFiles := [''a.txt'', ''denied.txt'', ''c.txt'']\<rparr>)))
       = [(ReadStream ''dir/a.txt'' None, ''a.txt'')]
   \<and> Finalize \<notin> set (fst (archive 0 example_env
            (example_args\<lparr>sourceFiles := [''a.txt'', ''denied.txt'', ''c.txt'']\<rparr>)))"
proof -
  let ?a = "example_args\<lparr>sourceFiles := [''a.txt'', ''denied.txt'', ''c.txt'']\<rparr>"
  have l: "fst (archive 0 example_env ?a) =
     [NewArchiver ''zip'',
      S3Upload [(''Bucket'', JStr ''bucket''), (''Key'', JStr ''dir/archive.zip''),
                (''Body'', JPassThrough)],
      Pipe, ConsoleLog (WorkingWith [''dir/a.txt'', ''dir/denied.txt'', ''dir/c.txt'']),
      GetObject ''bucket'' ''dir/a.txt'', Append (ReadStream ''dir/a.txt'' None) ''a.txt'',
      GetObject ''bucket'' ''dir/denied.txt'']"
    by (simp add: run_defs example_defs)
  have h1: "ConsoleLog (WorkingWith ([''dir/a.txt''] @ ''dir/denied.txt'' # [''dir/c.txt'']))
     \<in> set (fst (archive 0 example_env ?a))"
    by (simp add: l)
  have h2': "snd (process_entry example_env ?a 0 ''dir/a.txt'') = Done ()"
    by (simp add: run_defs example_defs)
  then have h2: "\<forall>j<length [''dir/a.txt''].
         snd (process_entry example_env ?a j ([''dir/a.txt''] ! j)) = Done ()"
    by simp
  have h3: "snd (process_entry example_env ?a (length [''dir/a.txt'']) ''dir/denied.txt'')
      = Throw (ExternalError ''AccessDenied'')"
    by (simp add: run_defs example_defs)
  have h4': "sourceFiles ?a \<noteq> []"
    by (simp add: example_defs)
  then have h4: "sourceFiles ?a \<noteq> []
      \<or> (\<forall>u p. upload_callback example_env \<noteq> CallbackWhileListing u p)"
    by simp
  from fail_fast [OF h1 h2 h3 h4] h1 h2' h3 h4' show ?thesis
    by (simp add: l)
qed

text \<open>
  Claim C2 does not hold for a read that fails after \<^verbatim>\<open>createReadStream()\<close> and
  \<^verbatim>\<open>append\<close> have returned. The loop of lines 97 to 104 waits for nothing and the function
  attaches no listener to the stream or to the archiver: with three entries of which the
  second has a stream whose reading fails, the third entry is opened and appended, the
  archiver is finalized, and the body does not reject the promise.
\<close>

theorem fail_fast_counterexample:
  "s3_getObject (example_env\<lparr>upload_callback := NoCallback\<rparr>) 1 ''bucket'' ''dir/missing.txt''
     = Inr (ReadStream ''dir/missing.txt'' (Some (ExternalError ''NoSuchKey'')))
   \<and> read_error (ReadStream ''dir/missing.txt'' (Some (ExternalError ''NoSuchKey'')))
     = Some (ExternalError ''NoSuchKey'')
   \<and> archive 0 (example_env\<lparr>upload_callback := NoCallback\<rparr>)
        (example_args\<lparr>sourceFiles := [''a.txt'', ''missing.txt'', ''c.txt'']\<rparr>)
     = ([NewArchiver ''zip'',
         S3Upload [(''Bucket'', JStr ''bucket''), (''Key'', JStr ''dir/archive.zip''),
                   (''Body'', JPassThrough)],
         Pipe, ConsoleLog (WorkingWith [''dir/a.txt'', ''dir/missing.txt'', ''dir/c.txt'']),
         GetObject ''bucket'' ''dir/a.txt'', Append (ReadStream ''dir/a.txt'' None) ''a.txt'',
         GetObject ''bucket'' ''dir/missing.txt'',
         Append (ReadStream ''dir/missing.txt'' (Some (ExternalError ''NoSuchKey''))) ''missing.txt'',
         GetObject ''bucket'' ''dir/c.txt'', Append (ReadStream ''dir/c.txt'' None) ''c.txt'',
         Finalize],
        Pending)"
  by (simp add: run_defs settle_defs example_defs)

subsection \<open>The entries found by listing\<close>

text \<open>
  Claim C3. With an empty list of explicit entries, when the enumeration of lines 76 to 92
  returns, the resolved entries are the keys of all the pages the lister returned, page
  after page and in the order of each page, without the keys equal to the prefix. Every
  listing call names the source bucket and, when the prefix is not empty, the prefix.
\<close>

theorem listing_complete:
  assumes "sourceFiles a = []" and "resolve_entries fuel ev a = (es, Done files)"
  shows "files = concat (map (\<lambda>page. filter (\<lambda>k. k \<noteq> sourcePath a) (map Key (Contents page)))
                             (returned_pages ev 0 (list_calls es)))
       \<and> (\<forall>q\<in>set (list_calls es). lp_Bucket q = sourceBucket a
             \<and> lp_Prefix q = (if sourcePath a = [] then None else Some (sourcePath a)))"
proof -
  obtain es' r where ll: "list_loop fuel ev (sourceBucket a) (sourcePath a) 0 JNull [] = (es', r)"
    by (cases "list_loop fuel ev (sourceBucket a) (sourcePath a) 0 JNull []")
  with assms have r: "r = Done files"
    and es: "es = es' @ [ConsoleLog (FoundTotalFiles (length files) (sourcePath a))]"
    by (cases r; simp add: resolve_entries_def bind_run_simps)+
  from list_loop_pages [OF ll [unfolded r]]
  have "files = concat (map (page_keys (sourcePath a)) (returned_pages ev 0 (list_calls es')))"
    by simp
  moreover have "list_calls es = list_calls es'"
    by (simp add: es list_calls_append)
  moreover have "\<forall>q\<in>set (list_calls es'). lp_Bucket q = sourceBucket a
             \<and> lp_Prefix q = (if sourcePath a = [] then None else Some (sourcePath a))"
  proof
    fix q assume "q \<in> set (list_calls es')"
    then have "ListObjectsV2 q \<in> set es'"
      by (induction es' rule: list_calls.induct) auto
    with list_loop_events [of fuel ev "sourceBucket a" "sourcePath a" 0 JNull "[]"] ll
    show "lp_Bucket q = sourceBucket a
             \<and> lp_Prefix q = (if sourcePath a = [] then None else Some (sourcePath a))"
      by (auto simp: list_request_def)
  qed
  ultimately show ?thesis
    by (simp add: page_keys_def [abs_def])
qed

theorem listing_complete_witness:
  "sourceFiles example_args = []
   \<and> resolve_entries 4 example_env example_args
       = (fst (resolve_entries 4 example_env example_args),
          Done [''dir/a.txt'', ''dir/b.txt'', ''dir/sub/c.txt''])
   \<and> returned_pages example_env 0 (list_calls (fst (resolve_entries 4 example_env example_args)))
       = example_pages
   \<and> [''dir/a.txt'', ''dir/b.txt'', ''dir/sub/c.txt'']
       = concat (map (\<lambda>page. filter (\<lambda>k. k \<noteq> ''dir/'') (map Key (Contents page))) example_pages)
   \<and> list_all (\<lambda>q. lp_Bucket q = ''bucket'' \<and> lp_Prefix q = Some ''dir/'')
        (list_calls (fst (resolve_entries 4 example_env example_args)))"
proof -
  have h: "sourceFiles example_args = []"
    by (simp add: example_defs)
  have r: "resolve_entries 4 example_env example_args =
     ([ListObjectsV2 \<lparr>lp_Bucket = ''bucket'', lp_ContinuationToken = JNull,
                      lp_Prefix = Some ''dir/''\<rparr>,
       ConsoleLog (FoundFiles 1 ''dir/''),
       ListObjectsV2 \<lparr>lp_Bucket = ''bucket'', lp_ContinuationToken = JStr ''t1'',
                      lp_Prefix = Some ''dir/''\<rparr>,
       ConsoleLog (FoundFiles 2 ''dir/''),
       ListObjectsV2 \<lparr>lp_Bucket = ''bucket'', lp_ContinuationToken = JStr ''t2'',
                      lp_Prefix = Some ''dir/''\<rparr>,
       ConsoleLog (FoundFiles 2 ''dir/''),
       ListObjectsV2 \<lparr>lp_Bucket = ''bucket'', lp_ContinuationToken = JStr ''t3'',
                      lp_Prefix = Some ''dir/''\<rparr>,
       ConsoleLog (FoundFiles 3 ''dir/''),
       ConsoleLog (FoundTotalFiles 3 ''dir/'')],
      Done [''dir/a.txt'', ''dir/b.txt'', ''dir/sub/c.txt''])"
    by (simp add: run_defs example_defs numeral_eq_Suc Let_def)
  have e: "resolve_entries 4 example_env example_args
       = (fst (resolve_entries 4 example_env example_args),
          Done [''dir/a.txt'', ''dir/b.txt'', ''dir/sub/c.txt''])"
    by (simp add: r)
  have p: "returned_pages example_env 0
      (list_calls (fst (resolve_entries 4 example_env example_args))) = example_pages"
    by (simp add: r) (simp add: example_defs)
  have v: "sourcePath example_args = ''dir/''" "sourceBucket example_args = ''bucket''"
    by (simp_all add: example_defs sourcePath_def)
  from listing_complete [OF h e] h e p show ?thesis
    unfolding v p list_all_iff by simp
qed

subsection \<open>Explicit entries\<close>

text \<open>
  Claim C4. With a list of explicit entries that is not empty, the resolved entries are the
  prefix followed by each entry, in the order given, and the run makes no listing call.
\<close>

theorem explicit_entries:
  assumes "sourceFiles a \<noteq> []"
  shows "resolve_entries fuel ev a = ([], Done (map (\<lambda>file. sourcePath a @ file) (sourceFiles a)))
       \<and> list_calls (fst (archive fuel ev a)) = []"
proof -
  from assms have r: "resolve_entries fuel ev a
      = ([], Done (map (\<lambda>file. sourcePath a @ file) (sourceFiles a)))"
    by (simp add: resolve_entries_def)
  with archive_list_calls [of fuel ev a] show ?thesis by auto
qed

theorem explicit_entries_witness:
  "sourceFiles (example_args\<lparr>sourceFiles := [''a.txt'', ''sub/b.txt'']\<rparr>) \<noteq> []
   \<and> resolve_entries 0 example_env (example_args\<lparr>sourceFiles := [''a.txt'', ''sub/b.txt'']\<rparr>)
       = ([], Done [''dir/a.txt'', ''dir/sub/b.txt''])
   \<and> list_calls (fst (archive 0 example_env
        (example_args\<lparr>sourceFiles := [''a.txt'', ''sub/b.txt'']\<rparr>))) = []"
proof -
  let ?a = "example_args\<lparr>sourceFiles := [''a.txt'', ''sub/b.txt'']\<rparr>"
  have h: "sourceFiles ?a \<noteq> []"
    by (simp add: example_defs)
  have v: "sourcePath ?a = ''dir/''" "sourceFiles ?a = [''a.txt'', ''sub/b.txt'']"
    by (simp_all add: example_defs sourcePath_def)
  from explicit_entries [OF h, of 0 example_env] h show ?thesis
    unfolding v by simp
qed

subsection \<open>The format and the output key\<close>



subsection \<open>Pagination\<close>

text \<open>
  Claim C6. Let the lister answer the first call, made with the null token, and then each
  call made with the token of the page before, with the pages \<open>ps\<close>, of which all but the
  last are truncated. Then the enumeration makes exactly \<open>length ps\<close> listing calls, the
  first with the null token and each later one with the token the page before returned,
  unchanged, and it ends with the keys of these pages. It does not end earlier: after fewer
  turns than there are pages the loop is still running.
\<close>

theorem pagination:
  assumes "sourceFiles a = []"
    and "ps \<noteq> []"
    and "\<forall>k<length ps. s3_listObjectsV2 ev k
            (list_request (sourceBucket a) (sourcePath a)
               ((JNull # map NextContinuationToken ps) ! k)) = Inr (ps ! k)"
    and "\<forall>k<length ps. IsTruncated (ps ! k) = (Suc k < length ps)"
  shows "(length ps \<le> fuel \<longrightarrow>
           snd (resolve_entries fuel ev a) = Done (concat (map (page_keys (sourcePath a)) ps))
           \<and> length (list_calls (fst (resolve_entries fuel ev a))) = length ps
           \<and> list_calls (fst (resolve_entries fuel ev a)) =
               map (list_request (sourceBucket a) (sourcePath a))
                   (JNull # map NextContinuationToken (butlast ps)))
       \<and> (fuel < length ps \<longrightarrow>
           snd (resolve_entries fuel ev a) = Diverge
           \<and> length (list_calls (fst (resolve_entries fuel ev a))) = fuel)"
proof -
  have c: "\<forall>k<length ps. s3_listObjectsV2 ev (0 + k)
            (list_request (sourceBucket a) (sourcePath a)
               ((JNull # map NextContinuationToken ps) ! k)) = Inr (ps ! k)"
    using assms(3) by simp
  note ch = list_loop_chain [OF assms(2) c assms(4), of fuel "[]"]
  have r: "resolve_entries fuel ev a =
     bind_run (list_loop fuel ev (sourceBucket a) (sourcePath a) 0 JNull [])
       (\<lambda>files. ([ConsoleLog (FoundTotalFiles (length files) (sourcePath a))], Done files))"
    using assms(1) by (simp add: resolve_entries_def)
  show ?thesis
  proof (cases "length ps \<le> fuel")
    case True
    with ch obtain es where
      "list_loop fuel ev (sourceBucket a) (sourcePath a) 0 JNull []
         = (es, Done (concat (map (page_keys (sourcePath a)) ps)))"
      "list_calls es = map (list_request (sourceBucket a) (sourcePath a))
                   (JNull # map NextContinuationToken (butlast ps))"
      by auto
    with True assms(2) show ?thesis
      by (simp add: r bind_run_simps list_calls_append)
  next
    case False
    with ch obtain es where
      "list_loop fuel ev (sourceBucket a) (sourcePath a) 0 JNull [] = (es, Diverge)"
      "length (list_calls es) = fuel"
      by auto
    with False show ?thesis
      by (simp add: r bind_run_simps)
  qed
qed

theorem pagination_witness:
  "sourceFiles example_args = []
   \<and> example_pages \<noteq> []
   \<and> list_all (\<lambda>k. s3_listObjectsV2 example_env k
          (list_request (sourceBucket example_args) (sourcePath example_args)
             ((JNull # map NextContinuationToken example_pages) ! k)) = Inr (example_pages ! k))
        [0..<length example_pages]
   \<and> list_all (\<lambda>k. IsTruncated (example_pages ! k) = (Suc k < length example_pages))
        [0..<length example_pages]
   \<and> length example_pages = 4
   \<and> snd (resolve_entries 4 example_env example_args)
       = Done [''dir/a.txt'', ''dir/b.txt'', ''dir/sub/c.txt'']
   \<and> length (list_calls (fst (resolve_entries 4 example_env example_args))) = 4
   \<and> map lp_ContinuationToken (list_calls (fst (resolve_entries 4 example_env example_args)))
       = [JNull, JStr ''t1'', JStr ''t2'', JStr ''t3'']
   \<and> snd (resolve_entries 3 example_env example_args) = Diverge
   \<and> length (list_calls (fst (resolve_entries 3 example_env example_args))) = 3"
proof -
  have h1: "sourceFiles example_args = []"
    by (simp add: example_defs)
  have h2: "example_pages \<noteq> []"
    by (simp add: example_defs)
  have len: "length example_pages = 4"
    by (simp add: example_defs)
  have four: "k < 4 \<longleftrightarrow> k = 0 \<or> k = 1 \<or> k = 2 \<or> k = 3" for k :: nat
    by arith
  have h3: "\<forall>k<length example_pages. s3_listObjectsV2 example_env k
          (list_request (sourceBucket example_args) (sourcePath example_args)
             ((JNull # map NextContinuationToken example_pages) ! k)) = Inr (example_pages ! k)"
    unfolding len four by (simp add: example_defs list_request_def)
  have h4: "\<forall>k<length example_pages.
      IsTruncated (example_pages ! k) = (Suc k < length example_pages)"
    unfolding len four by (simp add: example_defs)
  have k: "concat (map (page_keys (sourcePath example_args)) example_pages)
      = [''dir/a.txt'', ''dir/b.txt'', ''dir/sub/c.txt'']"
    by (simp add: example_defs page_keys_def sourcePath_def)
  have t: "map lp_ContinuationToken
      (map (list_request (sourceBucket example_args) (sourcePath example_args))
         (JNull # map NextContinuationToken (butlast example_pages)))
      = [JNull, JStr ''t1'', JStr ''t2'', JStr ''t3'']"
    by (simp add: example_defs list_request_def)
  note p4 = pagination [OF h1 h2 h3 h4, of 4]
  note p3 = pagination [OF h1 h2 h3 h4, of 3]
  from p4 have c4: "snd (resolve_entries 4 example_env example_args)
       = Done [''dir/a.txt'', ''dir/b.txt'', ''dir/sub/c.txt'']"
    "length (list_calls (fst (resolve_entries 4 example_env example_args))) = 4"
    by (simp_all add: len k)
  from p4 have c4c: "list_calls (fst (resolve_entries 4 example_env example_args)) =
       map (list_request (sourceBucket example_args) (sourcePath example_args))
         (JNull # map NextContinuationToken (butlast example_pages))"
    by (simp add: len)
  from p3 have c3: "snd (resolve_entries 3 example_env example_args) = Diverge"
    "length (list_calls (fst (resolve_entries 3 example_env example_args))) = 3"
    by (simp_all add: len)
  have c5: "map lp_ContinuationToken (list_calls (fst (resolve_entries 4 example_env example_args)))
       = [JNull, JStr ''t1'', JStr ''t2'', JStr ''t3'']"
    by (simp only: c4c t)
  from h3 have h3': "list_all (\<lambda>k. s3_listObjectsV2 example_env k
          (list_request (sourceBucket example_args) (sourcePath example_args)
             ((JNull # map NextContinuationToken example_pages) ! k)) = Inr (example_pages ! k))
        [0..<length example_pages]"
    unfolding list_all_iff by simp
  from h4 have h4': "list_all (\<lambda>k. IsTruncated (example_pages ! k) = (Suc k < length example_pages))
        [0..<length example_pages]"
    unfolding list_all_iff by simp
  from h1 h2 h3' h4' len c4(1,2) c5 c3 show ?thesis
    by blast
qed

subsection \<open>The names of the archive entries\<close>

text \<open>
  Claim C7. In a run that reaches the loop with the resolved entries \<open>files\<close>, the appends
  are made for the first entries of \<open>files\<close>, one for each and in their order: the append
  number \<open>j\<close> is given the stream opened for \<open>files ! j\<close> and the name \<open>entry_name\<close> gives
  that key; a run that reaches \<^verbatim>\<open>finalize\<close> has made an append for every entry. The name is
  the result of the naming callback when there is one, and otherwise the part of the key
  after its last \<^verbatim>\<open>/\<close>: the key is \<open>pre @ name\<close> where \<open>name\<close> has no \<^verbatim>\<open>/\<close> and \<open>pre\<close> is
  empty or ends with \<^verbatim>\<open>/\<close>.
\<close>

theorem entry_names:
  assumes "ConsoleLog (WorkingWith files) \<in> set (fst (archive fuel ev a))"
  shows "length (appended (fst (archive fuel ev a))) \<le> length files
       \<and> (\<forall>j<length (appended (fst (archive fuel ev a))).
             s3_getObject ev j (sourceBucket a) (files ! j)
               = Inr (fst (appended (fst (archive fuel ev a)) ! j))
             \<and> entry_name a (files ! j) = Inr (snd (appended (fst (archive fuel ev a)) ! j)))
       \<and> (Finalize \<in> set (fst (archive fuel ev a))
            \<longrightarrow> length (appended (fst (archive fuel ev a))) = length files)
       \<and> (\<forall>t k. s3FileNameTransform a = Some t \<longrightarrow> entry_name a k = t k)
       \<and> (\<forall>k. s3FileNameTransform a = None \<longrightarrow>
            (\<exists>pre name. entry_name a k = Inr name \<and> k = pre @ name
               \<and> CHR ''/'' \<notin> set name \<and> (pre = [] \<or> last pre = CHR ''/'')))"
proof (intro conjI allI impI)
  note n = append_files_names [of ev a 0 files, simplified]
  note aa = archive_appended(1,3) [OF assms]
  from n show "length (appended (fst (archive fuel ev a))) \<le> length files"
    unfolding aa by blast
  show "s3_getObject ev j (sourceBucket a) (files ! j)
          = Inr (fst (appended (fst (archive fuel ev a)) ! j))"
    if "j < length (appended (fst (archive fuel ev a)))" for j
    using n that unfolding aa by blast
  show "entry_name a (files ! j) = Inr (snd (appended (fst (archive fuel ev a)) ! j))"
    if "j < length (appended (fst (archive fuel ev a)))" for j
    using n that unfolding aa by blast
  show "length (appended (fst (archive fuel ev a))) = length files"
    if "Finalize \<in> set (fst (archive fuel ev a))"
    using n that unfolding aa by blast
next
  fix t k assume "s3FileNameTransform a = Some t"
  then show "entry_name a k = t k" by (simp add: entry_name_def)
next
  fix k assume "s3FileNameTransform a = None"
  with default_name [of k "CHR ''/''"]
  show "\<exists>pre name. entry_name a k = Inr name \<and> k = pre @ name
               \<and> CHR ''/'' \<notin> set name \<and> (pre = [] \<or> last pre = CHR ''/'')"
    by (simp add: entry_name_def)
qed

theorem entry_names_witness:
  "ConsoleLog (WorkingWith [''dir/sub/file.txt''])
     \<in> set (fst (archive 0 example_env (example_args\<lparr>sourceFiles := [''sub/file.txt'']\<rparr>)))
   \<and> Finalize \<in> set (fst (archive 0 example_env (example_args\<lparr>sourceFiles := [''sub/file.txt'']\<rparr>)))
   \<and> s3FileNameTransform (example_args\<lparr>sourceFiles := [''sub/file.txt'']\<rparr>) = None
   \<and> entry_name (example_args\<lparr>sourceFiles := [''sub/file.txt'']\<rparr>) ''dir/sub/file.txt''
       = Inr ''file.txt''
   \<and> appended (fst (archive 0 example_env (example_args\<lparr>sourceFiles := [''sub/file.txt'']\<rparr>)))
       = [(ReadStream ''dir/sub/file.txt'' None, ''file.txt'')]
   \<and> ConsoleLog (WorkingWith [''dir/A.TXT'', ''dir/b.txt''])
     \<in> set (fst (archive 0 example_env
          (example_args\<lparr>sourceFiles := [''A.TXT'', ''b.txt''],
                         s3FileNameTransform := Some (\<lambda>k. Inr (toLowerCase k))\<rparr>)))
   \<and> appended (fst (archive 0 example_env
          (example_args\<lparr>sourceFiles := [''A.TXT'', ''b.txt''],
                         s3FileNameTransform := Some (\<lambda>k. Inr (toLowerCase k))\<rparr>)))
       = [(ReadStream ''dir/A.TXT'' None, ''dir/a.txt''), (ReadStream ''dir/b.txt'' None, ''dir/b.txt'')]"
proof -
  let ?a = "example_args\<lparr>sourceFiles := [''sub/file.txt'']\<rparr>"
  let ?b = "example_args\<lparr>sourceFiles := [''A.TXT'', ''b.txt''],
                         s3FileNameTransform := Some (\<lambda>k. Inr (toLowerCase k))\<rparr>"
  have la: "fst (archive 0 example_env ?a) =
     [NewArchiver ''zip'',
      S3Upload [(''Bucket'', JStr ''bucket''), (''Key'', JStr ''dir/archive.zip''),
                (''Body'', JPassThrough)],
      Pipe, ConsoleLog (WorkingWith [''dir/sub/file.txt'']),
      GetObject ''bucket'' ''dir/sub/file.txt'', Append (ReadStream ''dir/sub/file.txt'' None) ''file.txt'',
      Finalize]"
    by (simp add: run_defs example_defs)
  have lb: "fst (archive 0 example_env ?b) =
     [NewArchiver ''zip'',
      S3Upload [(''Bucket'', JStr ''bucket''), (''Key'', JStr ''dir/archive.zip''),
                (''Body'', JPassThrough)],
      Pipe, ConsoleLog (WorkingWith [''dir/A.TXT'', ''dir/b.txt'']),
      GetObject ''bucket'' ''dir/A.TXT'', Append (ReadStream ''dir/A.TXT'' None) ''dir/a.txt'',
      GetObject ''bucket'' ''dir/b.txt'', Append (ReadStream ''dir/b.txt'' None) ''dir/b.txt'',
      Finalize]"
    by (simp add: run_defs example_defs)
  have ha: "ConsoleLog (WorkingWith [''dir/sub/file.txt'']) \<in> set (fst (archive 0 example_env ?a))"
    by (simp add: la)
  have hb: "ConsoleLog (WorkingWith [''dir/A.TXT'', ''dir/b.txt''])
      \<in> set (fst (archive 0 example_env ?b))"
    by (simp add: lb)
  have n: "s3FileNameTransform ?a = None"
    by (simp add: example_defs)
  have e: "entry_name ?a ''dir/sub/file.txt'' = Inr ''file.txt''"
    by (simp add: run_defs example_defs)
  from entry_names [OF ha] entry_names [OF hb] ha hb n e show ?thesis
    by (simp add: la lb)
qed

subsection \<open>The upload is wired before any append\<close>



subsection \<open>The upload goes into the source bucket\<close>

text \<open>
  Claim C9. When the caller's upload options have no \<^verbatim>\<open>Bucket\<close> property, every call of
  a run works on the source bucket: the upload is given it as \<^verbatim>\<open>Bucket\<close>, and so are the
  listing calls and the reads of the entries.
\<close>

theorem upload_into_source_bucket:
  assumes "''Bucket'' \<notin> fst ` set (uploadOptions a)"
  shows "\<forall>e\<in>set (fst (archive fuel ev a)). on_bucket (sourceBucket a) e"
proof -
  have b: "on_bucket (sourceBucket a) (S3Upload (upload_params a fmt))" for fmt
    using assms by (simp add: upload_params_Bucket)
  have "\<forall>e\<in>set (fst (archive_body fuel ev a)). on_bucket (sourceBucket a) e"
  proof (rule archive_body_cases [where a = a and fuel = fuel and ev = ev])
  qed (use b stream_entries_on_bucket [of fuel ev a] in simp_all)
  then show ?thesis by (simp add: archive_def)
qed

theorem upload_into_source_bucket_witness:
  "''Bucket'' \<notin> fst ` set (uploadOptions (example_args\<lparr>uploadOptions := [(''ACL'', JStr ''private'')]\<rparr>))
   \<and> S3Upload [(''Bucket'', JStr ''bucket''), (''Key'', JStr ''dir/archive.zip''),
               (''Body'', JPassThrough), (''ACL'', JStr ''private'')]
       \<in> set (fst (archive 4 example_env (example_args\<lparr>uploadOptions := [(''ACL'', JStr ''private'')]\<rparr>)))
   \<and> list_all (on_bucket ''bucket'')
        (fst (archive 4 example_env (example_args\<lparr>uploadOptions := [(''ACL'', JStr ''private'')]\<rparr>)))"
proof -
  let ?a = "example_args\<lparr>uploadOptions := [(''ACL'', JStr ''private'')]\<rparr>"
  have h: "''Bucket'' \<notin> fst ` set (uploadOptions ?a)"
    by (simp add: example_args_def)
  have u: "S3Upload [(''Bucket'', JStr ''bucket''), (''Key'', JStr ''dir/archive.zip''),
               (''Body'', JPassThrough), (''ACL'', JStr ''private'')]
       \<in> set (fst (archive 4 example_env ?a))"
    by (simp add: archive_def archive_body_def example_args_def example_env_def select_format_def
        default_param_def toLowerCase_def lower_char_def upload_params_def spread_def
        outputFilePath_def sourcePath_def outputName_def lift_simps call_simps bind_run_simps)
  have s: "sourceBucket ?a = ''bucket''"
    by (simp add: example_args_def)
  show ?thesis
    using h u upload_into_source_bucket [OF h, of 4 example_env] unfolding s list_all_iff
    by blast
qed

subsection \<open>A format that is not a string\<close>

text \<open>
  Claim C10. When the \<^verbatim>\<open>outputFormat\<close> parameter (the argument, or \<^verbatim>\<open>'zip'\<close> for an
  argument that is undefined) is not a string, the promise is rejected with the TypeError
  of line 46 and the run makes no call at all: no archiver is created for a default format.
\<close>

theorem rejects_non_string_format:
  assumes "default_param (JStr ''zip'') (outputFormat a) = v" and "\<forall>s. v \<noteq> JStr s"
  shows "archive fuel ev a = ([], Rejected TypeError)"
proof -
  from assms have "select_format (default_param (JStr ''zip'') (outputFormat a)) = Inl TypeError"
    by (cases v) (simp_all add: select_format_def)
  then have "archive_body fuel ev a = ([], Throw TypeError)"
    by (simp add: archive_body_def lift_simps bind_run_simps)
  then show ?thesis
    by (simp add: archive_def settle_def body_settles_def)
qed

theorem rejects_non_string_format_witness:
  "default_param (JStr ''zip'') (outputFormat (example_args\<lparr>outputFormat := JNumber 7\<rparr>)) = JNumber 7
   \<and> (\<forall>s. JNumber 7 \<noteq> JStr s)
   \<and> archive 4 example_env (example_args\<lparr>outputFormat := JNumber 7\<rparr>) = ([], Rejected TypeError)"
proof -
  have h1: "default_param (JStr ''zip'') (outputFormat (example_args\<lparr>outputFormat := JNumber 7\<rparr>))
      = JNumber 7"
    by (simp add: default_param_def)
  have h2: "\<forall>s. JNumber 7 \<noteq> JStr s" by simp
  from rejects_non_string_format [OF h1 h2, of 4 example_env] h1 h2 show ?thesis by blast
qed

end
